theory Spec2Isabelle
  imports Main
begin

unbundle bit_operations_syntax

section \<open>Machine integers and memory\<close>

text \<open>
  The C code works on \<open>uint16_t\<close> and \<open>uint32_t\<close> values held in arrays. The model keeps
  every such value as a natural number and writes each truncation to the width of
  the C type out as \<open>mod 65536\<close> or \<open>mod 2 ^ 32\<close>. Lengths and loop counters are C \<open>int\<close>s
  that stay far below \<open>2 ^ 31\<close>; they are natural numbers here. Arrays are lists, read
  with \<open>!\<close> and written with list update. A failed \<open>assert\<close> (the program aborts) is
  the result \<open>None\<close>.
\<close>

definition sub16 :: "nat \<Rightarrow> nat \<Rightarrow> nat" where
  \<comment> \<open>\<open>(uint16_t)(a - b)\<close>: the difference is formed in \<open>int\<close> and truncated.\<close>
  "sub16 a b = nat ((int a - int b) mod 65536)"

definition sub32 :: "nat \<Rightarrow> nat \<Rightarrow> nat" where
  \<comment> \<open>\<open>a - b\<close> on \<open>uint32_t\<close>.\<close>
  "sub32 a b = nat ((int a - int b) mod 2 ^ 32)"

text \<open>
  \<open>short_division\<close> receives three pointers, and its callers make two of them equal:
  \<open>to_string\<close> passes the same array as dividend \<open>u\<close> and as quotient \<open>q\<close>, whereas
  \<open>algorithm_d\<close> passes distinct arrays and lets \<open>r\<close> point to \<open>u[0]\<close>. The function is
  therefore modelled over a store that maps the identity of an array object to its
  contents; an array pointer is the identity of the array, and a pointer to a single
  cell is an array identity with an index.
\<close>

type_synonym store = "nat \<Rightarrow> nat list"
type_synonym cell = "nat \<times> nat"

section \<open>Limb arithmetic kernel\<close>

definition mul_32_by_32 :: "nat \<Rightarrow> nat \<Rightarrow> nat \<times> nat" where
  "mul_32_by_32 x y =
     (let prod = (x * y) mod 2 ^ 64
      in (drop_bit 32 prod mod 2 ^ 32, prod mod 2 ^ 32))"

definition div_32_by_16 :: "nat \<Rightarrow> nat \<Rightarrow> nat \<Rightarrow> (nat \<times> nat) option" where
  "div_32_by_16 u_hi u_lo v =
     (let u = (push_bit 16 u_hi mod 2 ^ 32) OR u_lo in
      if \<not> v > 0 then None
      else if \<not> u div v \<le> 65535 then None
      else Some ((u div v) mod 65536, (u mod v) mod 65536))"

text \<open>
  The loop \<open>for (i = n - 1; i >= 0; i--)\<close> of \<open>short_division\<close>; the first argument
  is \<open>i + 1\<close>. Each step reads \<open>u[i]\<close> from the store and then writes \<open>q[i]\<close> to it.
\<close>

fun short_division_loop ::
  "nat \<Rightarrow> nat \<Rightarrow> nat \<Rightarrow> nat \<Rightarrow> nat \<Rightarrow> store \<Rightarrow> (store \<times> nat) option" where
  "short_division_loop 0 u v q k s = Some (s, k)"
| "short_division_loop (Suc i) u v q k s =
     (case div_32_by_16 k (s u ! i) v of
        None \<Rightarrow> None
      | Some (qd, k') \<Rightarrow> short_division_loop i u v q k' (s(q := (s q)[i := qd])))"

definition short_division :: "nat \<Rightarrow> nat \<Rightarrow> nat \<Rightarrow> nat \<Rightarrow> cell \<Rightarrow> store \<Rightarrow> store option" where
  "short_division n u v q r s =
     (if \<not> v > 0 then None
      else if \<not> n > 0 then None
      else case short_division_loop n u v q 0 s of
             None \<Rightarrow> None
           | Some (s', k) \<Rightarrow> Some (s'(fst r := (s' (fst r))[snd r := k])))"

text \<open>
  The arguments \<open>(u_hi, u_lo)\<close> of the calls of \<open>div_32_by_16\<close> that the loop of
  \<open>short_division\<close> makes, in the order of the sweep; \<open>u_hi\<close> is the running
  remainder \<open>k\<close> on entry to the iteration. The recursion is that of
  \<open>short_division_loop\<close>; the list ends with the call whose assertion fails, if any.
\<close>

fun short_division_calls ::
  "nat \<Rightarrow> nat \<Rightarrow> nat \<Rightarrow> nat \<Rightarrow> nat \<Rightarrow> store \<Rightarrow> (nat \<times> nat) list" where
  "short_division_calls 0 u v q k s = []"
| "short_division_calls (Suc i) u v q k s =
     (k, s u ! i) #
       (case div_32_by_16 k (s u ! i) v of
          None \<Rightarrow> []
        | Some (qd, k') \<Rightarrow> short_division_calls i u v q k' (s(q := (s q)[i := qd])))"

partial_function (option) leading_zeros_loop :: "nat \<Rightarrow> nat \<Rightarrow> nat option" where
  "leading_zeros_loop x n =
     (if x \<le> 65535 div 2 then leading_zeros_loop (push_bit 1 x mod 65536) (n + 1)
      else Some n)"

definition leading_zeros :: "nat \<Rightarrow> nat option" where
  "leading_zeros x = (if \<not> x \<noteq> 0 then None else leading_zeros_loop x 0)"

function shift_left_loop :: "nat \<Rightarrow> nat \<Rightarrow> nat \<Rightarrow> nat list \<Rightarrow> nat \<Rightarrow> nat list \<times> nat" where
  "shift_left_loop i n m u k =
     (if i < n then
        let t = drop_bit (16 - m) (u ! i) mod 65536;
            u' = u[i := (push_bit m (u ! i) OR k) mod 65536]
        in shift_left_loop (i + 1) n m u' t
      else (u, k))"
  by pat_completeness auto
termination by (relation "measure (\<lambda>(i, n, m, u, k). n - i)") auto

declare shift_left_loop.simps [simp del]

definition shift_left :: "nat \<Rightarrow> nat list \<Rightarrow> nat \<Rightarrow> nat list option" where
  "shift_left n u m =
     (if \<not> m > 0 then None
      else if \<not> m < 16 then None
      else case shift_left_loop 0 n m u 0 of
             (u', k) \<Rightarrow> if \<not> k = 0 then None else Some u')"

text \<open>The loop \<open>for (i = n - 1; i >= 0; i--)\<close> of \<open>shift_right\<close>; the first argument is \<open>i + 1\<close>.\<close>

fun shift_right_loop :: "nat \<Rightarrow> nat \<Rightarrow> nat list \<Rightarrow> nat \<Rightarrow> nat list \<times> nat" where
  "shift_right_loop 0 m u k = (u, k)"
| "shift_right_loop (Suc i) m u k =
     (let t = push_bit (16 - m) (u ! i) mod 65536;
          u' = u[i := (drop_bit m (u ! i) OR k) mod 65536]
      in shift_right_loop i m u' t)"

definition shift_right :: "nat \<Rightarrow> nat list \<Rightarrow> nat \<Rightarrow> nat list option" where
  "shift_right n u m =
     (if \<not> m > 0 then None
      else if \<not> m < 16 then None
      else case shift_right_loop n m u 0 of
             (u', k) \<Rightarrow> if \<not> k = 0 then None else Some u')"

subsection \<open>Long division\<close>

text \<open>
  The \<open>while (true)\<close> loop of \<open>algorithm_d\<close> that corrects the estimate \<open>qhat\<close>. \<open>qhat\<close>
  and \<open>rhat\<close> are \<open>uint32_t\<close>. The loop ends because \<open>qhat\<close> decreases.
\<close>

function qhat_loop ::
  "nat \<Rightarrow> nat \<Rightarrow> nat list \<Rightarrow> nat list \<Rightarrow> nat \<Rightarrow> nat \<Rightarrow> (nat \<times> nat) option" where
  "qhat_loop n j u v qhat rhat =
     (if \<not> n \<ge> 2 then None
      else if qhat > 65535 \<or>
              (qhat * v ! (n - 2)) mod 2 ^ 32 >
                ((push_bit 16 rhat mod 2 ^ 32) OR u ! (j + n - 2))
      then
        let qhat' = sub32 qhat 1;
            rhat' = (rhat + v ! (n - 1)) mod 2 ^ 32
        in if rhat' \<le> 65535 then qhat_loop n j u v qhat' rhat'
           else Some (qhat', rhat')
      else Some (qhat, rhat))"
  by pat_completeness auto
termination
proof (relation "measure (\<lambda>(n, j, u, v, qhat, rhat). qhat)")
  show "wf (measure (\<lambda>(n, j, u, v, qhat, rhat). qhat))" by simp
next
  fix n j :: nat and u v :: "nat list" and qhat rhat x xa :: nat
  assume c: "65535 < qhat \<or>
       (push_bit 16 rhat mod 2 ^ 32 OR u ! (j + n - 2)) < qhat * v ! (n - 2) mod 2 ^ 32"
    and x: "x = sub32 qhat 1"
  from c have pos: "0 < qhat" by (cases "qhat = 0") auto
  have "sub32 qhat 1 < qhat"
  proof (cases "qhat < 2 ^ 32")
    case True
    with pos have "(int qhat - 1) mod 2 ^ 32 = int qhat - 1"
      by simp
    with pos show ?thesis by (simp add: sub32_def)
  next
    case False
    have "(int qhat - 1) mod 2 ^ 32 < 2 ^ 32" by simp
    with False show ?thesis by (simp add: sub32_def)
  qed
  with x show "((n, j, u, v, x, xa), n, j, u, v, qhat, rhat)
         \<in> measure (\<lambda>(n, j, u, v, qhat, rhat). qhat)"
    by simp
qed

declare qhat_loop.simps [simp del]

text \<open>
  The operands \<open>(qhat, rhat)\<close> at every evaluation of the comparison
  \<open>qhat * v[n - 2] > ((rhat << 16) | u[j + n - 2])\<close>, which C evaluates only when
  \<open>qhat > UINT16_MAX\<close> is false. The recursion is that of \<open>qhat_loop\<close>.
\<close>

function qhat_compared ::
  "nat \<Rightarrow> nat \<Rightarrow> nat list \<Rightarrow> nat list \<Rightarrow> nat \<Rightarrow> nat \<Rightarrow> (nat \<times> nat) list" where
  "qhat_compared n j u v qhat rhat =
     (if \<not> n \<ge> 2 then []
      else (if qhat > 65535 then [] else [(qhat, rhat)]) @
        (if qhat > 65535 \<or>
              (qhat * v ! (n - 2)) mod 2 ^ 32 >
                ((push_bit 16 rhat mod 2 ^ 32) OR u ! (j + n - 2))
         then
           let qhat' = sub32 qhat 1;
               rhat' = (rhat + v ! (n - 1)) mod 2 ^ 32
           in if rhat' \<le> 65535 then qhat_compared n j u v qhat' rhat'
              else []
         else []))"
  by pat_completeness auto
termination
proof (relation "measure (\<lambda>(n, j, u, v, qhat, rhat). qhat)")
  show "wf (measure (\<lambda>(n, j, u, v, qhat, rhat). qhat))" by simp
next
  fix n j :: nat and u v :: "nat list" and qhat rhat x xa :: nat
  assume c: "65535 < qhat \<or>
       (push_bit 16 rhat mod 2 ^ 32 OR u ! (j + n - 2)) < qhat * v ! (n - 2) mod 2 ^ 32"
    and x: "x = sub32 qhat 1"
  from c have pos: "0 < qhat" by (cases "qhat = 0") auto
  have "sub32 qhat 1 < qhat"
  proof (cases "qhat < 2 ^ 32")
    case True
    with pos have "(int qhat - 1) mod 2 ^ 32 = int qhat - 1"
      by simp
    with pos show ?thesis by (simp add: sub32_def)
  next
    case False
    have "(int qhat - 1) mod 2 ^ 32 < 2 ^ 32" by simp
    with False show ?thesis by (simp add: sub32_def)
  qed
  with x show "((n, j, u, v, x, xa), n, j, u, v, qhat, rhat)
         \<in> measure (\<lambda>(n, j, u, v, qhat, rhat). qhat)"
    by simp
qed

declare qhat_compared.simps [simp del]


text \<open>
  One iteration of the multiply-and-subtract loop: the digit \<open>u[j + i]\<close> and the
  borrow \<open>k\<close>; \<open>p\<close> is \<open>uint32_t\<close>, and \<open>k\<close>, \<open>k2\<close> and \<open>d\<close> are \<open>uint16_t\<close>.
\<close>

definition mulsub_step ::
  "nat \<Rightarrow> nat \<Rightarrow> nat \<Rightarrow> nat \<Rightarrow> nat list \<Rightarrow> nat list \<Rightarrow> nat \<Rightarrow> nat list \<times> nat" where
  "mulsub_step i n j qhat v u k =
     (let p = (qhat * (if i = n then 0 else v ! i)) mod 2 ^ 32;
          k2 = drop_bit 16 p mod 65536;
          d = sub16 (u ! (j + i)) (p mod 65536);
          k2 = (k2 + (if d > u ! (j + i) then 1 else 0)) mod 65536;
          u' = u[j + i := sub16 d k];
          k2 = (k2 + (if u' ! (j + i) > d then 1 else 0)) mod 65536
      in (u', k2))"

text \<open>The loop \<open>for (i = 0; i <= n; i++)\<close> around it.\<close>

function mulsub_loop ::
  "nat \<Rightarrow> nat \<Rightarrow> nat \<Rightarrow> nat \<Rightarrow> nat list \<Rightarrow> nat list \<Rightarrow> nat \<Rightarrow> nat list \<times> nat" where
  "mulsub_loop i n j qhat v u k =
     (if i \<le> n then
        (case mulsub_step i n j qhat v u k of
           (u', k') \<Rightarrow> mulsub_loop (i + 1) n j qhat v u' k')
      else (u, k))"
  by pat_completeness auto
termination by (relation "measure (\<lambda>(i, n, j, qhat, v, u, k). Suc n - i)") auto

declare mulsub_loop.simps [simp del]

text \<open>
  One iteration of the add-back loop, and the loop \<open>for (i = 0; i < n; i++)\<close>; \<open>t\<close> is
  \<open>uint32_t\<close>, \<open>k\<close> is \<open>uint16_t\<close>.
\<close>

definition addback_step :: "nat \<Rightarrow> nat \<Rightarrow> nat list \<Rightarrow> nat list \<Rightarrow> nat \<Rightarrow> nat list \<times> nat" where
  "addback_step i j v u k =
     (let t = (u ! (j + i) + v ! i + k) mod 2 ^ 32;
          u' = u[j + i := t mod 65536]
      in (u', drop_bit 16 t mod 65536))"

function addback_loop ::
  "nat \<Rightarrow> nat \<Rightarrow> nat \<Rightarrow> nat list \<Rightarrow> nat list \<Rightarrow> nat \<Rightarrow> nat list \<times> nat" where
  "addback_loop i n j v u k =
     (if i < n then
        (case addback_step i j v u k of
           (u', k') \<Rightarrow> addback_loop (i + 1) n j v u' k')
      else (u, k))"
  by pat_completeness auto
termination by (relation "measure (\<lambda>(i, n, j, v, u, k). n - i)") auto

declare addback_loop.simps [simp del]

text \<open>
  The main loop \<open>for (j = m; j >= 0; j--)\<close> of \<open>algorithm_d\<close>; the first argument is
  \<open>j + 1\<close>. The result is the pair of the arrays \<open>u\<close> and \<open>q\<close>.
\<close>

function algorithm_d_loop ::
  "nat \<Rightarrow> nat \<Rightarrow> nat list \<Rightarrow> nat list \<Rightarrow> nat list \<Rightarrow> (nat list \<times> nat list) option" where
  "algorithm_d_loop 0 n u v q = Some (u, q)"
| "algorithm_d_loop (Suc j) n u v q =
     (let t = (push_bit 16 (u ! (j + n)) mod 2 ^ 32) OR u ! (j + n - 1);
          qhat = t div v ! (n - 1);
          rhat = t mod v ! (n - 1)
      in case qhat_loop n j u v qhat rhat of
           None \<Rightarrow> None
         | Some (qhat, rhat) \<Rightarrow>
             (case mulsub_loop 0 n j qhat v u 0 of
                (u, k) \<Rightarrow>
                  let q = q[j := qhat mod 65536] in
                  if k \<noteq> 0 then
                    let q = q[j := sub16 (q ! j) 1] in
                    (case addback_loop 0 n j v u 0 of
                       (u, k) \<Rightarrow>
                         algorithm_d_loop j n (u[j + n := (u ! (j + n) + k) mod 65536]) v q)
                  else algorithm_d_loop j n u v q))"
  by pat_completeness simp_all
termination by (relation "measure (\<lambda>(j, n, u, v, q). j)") simp_all

text \<open>
  \<open>algorithm_d\<close> changes the arrays \<open>u\<close>, \<open>v\<close> and \<open>q\<close> in place; the model returns the
  three arrays. In the call of \<open>short_division\<close> the store holds \<open>u\<close> as array 0 and
  \<open>q\<close> as array 1, and the remainder goes to \<open>u[0]\<close>.
\<close>

definition algorithm_d ::
  "nat \<Rightarrow> nat \<Rightarrow> nat list \<Rightarrow> nat list \<Rightarrow> nat list \<Rightarrow> (nat list \<times> nat list \<times> nat list) option" where
  "algorithm_d m n u v q =
     (if \<not> n > 0 then None
      else if \<not> v ! (n - 1) \<noteq> 0 then None
      else if n = 1 then
        (case short_division (m + n) 0 (v ! 0) 1 (0, 0) ((\<lambda>_. [])(0 := u, 1 := q)) of
           None \<Rightarrow> None
         | Some s \<Rightarrow> Some (s 0, v, s 1))
      else
        let u = u[m + n := 0] in
        case leading_zeros (v ! (n - 1)) of
          None \<Rightarrow> None
        | Some shift \<Rightarrow>
            (case (if shift \<noteq> 0 then
                     (case shift_left n v shift of
                        None \<Rightarrow> None
                      | Some v' \<Rightarrow>
                          (case shift_left (m + n + 1) u shift of
                             None \<Rightarrow> None
                           | Some u' \<Rightarrow> Some (u', v')))
                   else Some (u, v)) of
               None \<Rightarrow> None
             | Some (u, v) \<Rightarrow>
                 (case algorithm_d_loop (m + 1) n u v q of
                    None \<Rightarrow> None
                  | Some (u, q) \<Rightarrow>
                      if shift \<noteq> 0 then
                        (case shift_right n u shift of
                           None \<Rightarrow> None
                         | Some u \<Rightarrow> Some (u, v, q))
                      else Some (u, v, q))))"

subsection \<open>Half-limb bridge\<close>

function u32_to_u16_loop :: "nat \<Rightarrow> nat \<Rightarrow> nat list \<Rightarrow> nat list \<Rightarrow> nat list" where
  "u32_to_u16_loop i n u32 u16 =
     (if i < n then
        let u16 = u16[i * 2 + 0 := u32 ! i mod 65536];
            u16 = u16[i * 2 + 1 := drop_bit 16 (u32 ! i) mod 65536]
        in u32_to_u16_loop (i + 1) n u32 u16
      else u16)"
  by pat_completeness auto
termination by (relation "measure (\<lambda>(i, n, u32, u16). n - i)") auto

declare u32_to_u16_loop.simps [simp del]

definition u32_to_u16 :: "nat \<Rightarrow> nat list \<Rightarrow> nat list \<Rightarrow> nat list" where
  "u32_to_u16 n u32 u16 = u32_to_u16_loop 0 n u32 u16"

function u16_to_u32_loop :: "nat \<Rightarrow> nat \<Rightarrow> nat list \<Rightarrow> nat list \<Rightarrow> nat list" where
  "u16_to_u32_loop i n u16 u32 =
     (if i < n then
        u16_to_u32_loop (i + 2) n u16
          (u32[i div 2 := (u16 ! i OR (push_bit 16 (u16 ! (i + 1)) mod 2 ^ 32))])
      else u32)"
  by pat_completeness auto
termination by (relation "measure (\<lambda>(i, n, u16, u32). n - i)") auto

declare u16_to_u32_loop.simps [simp del]

definition u16_to_u32 :: "nat \<Rightarrow> nat list \<Rightarrow> nat list \<Rightarrow> nat list option" where
  "u16_to_u32 n u16 u32 =
     (if \<not> n mod 2 = 0 then None else Some (u16_to_u32_loop 0 n u16 u32))"

text \<open>
  The scratch arrays \<open>u16\<close>, \<open>v16\<close> and \<open>q16\<close> are variable-length arrays without an
  initialiser; the model starts them filled with zeros. The results are the arrays
  \<open>q\<close> and \<open>r\<close>.
\<close>

definition algorithm_d_wrapper ::
  "nat \<Rightarrow> nat \<Rightarrow> nat list \<Rightarrow> nat list \<Rightarrow> nat list \<Rightarrow> nat list \<Rightarrow> (nat list \<times> nat list) option" where
  "algorithm_d_wrapper m n u v q r =
     (let u16 = replicate ((m + n) * 2 + 1) 0;
          v16 = replicate (n * 2) 0;
          q16 = replicate ((m + 1) * 2) 0
      in if \<not> n > 0 then None
         else if \<not> v ! (n - 1) \<noteq> 0 then None
         else
           let u16 = u32_to_u16 (m + n) u u16;
               v16 = u32_to_u16 n v v16;
               v_zero = (v16 ! (n * 2 - 1) = 0)
           in case algorithm_d (m * 2 + (if v_zero then 1 else 0))
                     (n * 2 - (if v_zero then 1 else 0)) u16 v16 q16 of
                None \<Rightarrow> None
              | Some (u16, v16, q16) \<Rightarrow>
                  let u16 = (if v_zero then u16[n * 2 - 1 := 0] else u16);
                      q16 = (if v_zero then q16 else q16[(m + 1) * 2 - 1 := 0])
                  in (case u16_to_u32 ((m + 1) * 2) q16 q of
                        None \<Rightarrow> None
                      | Some q \<Rightarrow>
                          (case u16_to_u32 (n * 2) u16 r of
                             None \<Rightarrow> None
                           | Some r \<Rightarrow> Some (q, r))))"

section \<open>Base conversion\<close>

text \<open>
  \<open>multiply_add\<close> writes into the buffer that \<open>bigint_create_str\<close> allocates on its
  stack, and extends the number by one limb when a carry is left. The buffer is a
  list of the allocated length; a write at or beyond that length is outside the
  buffer and gives \<open>None\<close>.
\<close>

definition multiply_add_step :: "nat \<Rightarrow> nat \<Rightarrow> nat list \<Rightarrow> nat \<Rightarrow> nat list \<times> nat" where
  "multiply_add_step i x u k =
     (case mul_32_by_32 (u ! i) x of
        (hi_prod, lo_prod) \<Rightarrow>
          let lo_prod = (lo_prod + k) mod 2 ^ 32;
              k = (hi_prod + (if lo_prod < k then 1 else 0)) mod 2 ^ 32
          in (u[i := lo_prod], k))"

function multiply_add_loop ::
  "nat \<Rightarrow> nat \<Rightarrow> nat \<Rightarrow> nat list \<Rightarrow> nat \<Rightarrow> (nat list \<times> nat) option" where
  "multiply_add_loop i m x u k =
     (if i < m then
        if \<not> i < length u then None
        else (case multiply_add_step i x u k of
                (u', k') \<Rightarrow> multiply_add_loop (i + 1) m x u' k')
      else Some (u, k))"
  by pat_completeness auto
termination by (relation "measure (\<lambda>(i, m, x, u, k). m - i)") auto

declare multiply_add_loop.simps [simp del]

text \<open>The result is the buffer and the new value of \<open>*m\<close>.\<close>

definition multiply_add :: "nat list \<Rightarrow> nat \<Rightarrow> nat \<Rightarrow> nat \<Rightarrow> (nat list \<times> nat) option" where
  "multiply_add u m x y =
     (case multiply_add_loop 0 m x u y of
        None \<Rightarrow> None
      | Some (u, k) \<Rightarrow>
          if k \<noteq> 0 then
            if \<not> m < length u then None
            else Some (u[m := k], m + 1)
          else Some (u, m))"

definition pow10s :: "nat list" where
  "pow10s = [1000000000, 10, 100, 1000, 10000, 100000, 1000000, 10000000, 100000000]"

text \<open>
  The loop \<open>for (i = 1; i <= n; i++)\<close> of \<open>from_string\<close>. The character read by
  \<open>*str++\<close> in iteration \<open>i\<close> is \<open>str[i - 1]\<close>; \<open>chunk\<close> is \<open>uint32_t\<close>.
\<close>

function from_string_loop ::
  "nat \<Rightarrow> nat \<Rightarrow> string \<Rightarrow> nat \<Rightarrow> nat list \<Rightarrow> nat \<Rightarrow> (nat \<times> nat list) option" where
  "from_string_loop i n str u_len u chunk =
     (if i \<le> n then
        let c = of_char (str ! (i - 1)) :: nat in
        if \<not> (c \<ge> of_char CHR ''0'' \<and> c \<le> of_char CHR ''9'') then None
        else
          let chunk = sub32 ((chunk * 10 + c) mod 2 ^ 32) (of_char CHR ''0'') in
          if i mod 9 = 0 \<or> i = n then
            (case multiply_add u u_len (pow10s ! (i mod 9)) chunk of
               None \<Rightarrow> None
             | Some (u, u_len) \<Rightarrow> from_string_loop (i + 1) n str u_len u 0)
          else from_string_loop (i + 1) n str u_len u chunk
      else Some (u_len, u))"
  by pat_completeness auto
termination by (relation "measure (\<lambda>(i, n, str, u_len, u, chunk). Suc n - i)") auto

declare from_string_loop.simps [simp del]

definition from_string :: "nat \<Rightarrow> string \<Rightarrow> nat list \<Rightarrow> (nat \<times> nat list) option" where
  "from_string n str u = from_string_loop 1 n str 0 u 0"

text \<open>The loops \<open>while (n && v[n - 1] == 0) n--\<close> of \<open>to_string\<close> and \<open>bigint_create\<close>.\<close>

fun skip_leading_zeros :: "nat \<Rightarrow> nat list \<Rightarrow> nat" where
  "skip_leading_zeros 0 v = 0"
| "skip_leading_zeros (Suc n) v = (if v ! n = 0 then skip_leading_zeros n v else Suc n)"

text \<open>
  The digit loop \<open>for (i = 0; (n != 0 && i < 4) || k; i++)\<close> of \<open>to_string\<close>. The
  characters written through \<open>s\<close> are appended to the list \<open>str\<close>.
\<close>

function digits_loop :: "nat \<Rightarrow> nat \<Rightarrow> nat \<Rightarrow> string \<Rightarrow> string" where
  "digits_loop i n k str =
     (if (n \<noteq> 0 \<and> i < 4) \<or> k \<noteq> 0 then
        digits_loop (i + 1) n (k div 10) (str @ [char_of (of_char CHR ''0'' + k mod 10)])
      else str)"
  by pat_completeness auto
termination by (relation "measure (\<lambda>(i, n, k, str). k + (4 - i))") auto

declare digits_loop.simps [simp del]

text \<open>
  The loop \<open>while (n != 0)\<close> of \<open>to_string\<close>. The scratch array \<open>v\<close> is array 0 of the
  store and the local variable \<open>k\<close> is the single cell of array 1; \<open>short_division\<close>
  gets \<open>v\<close> both as its dividend and as its quotient.
\<close>

partial_function (option) to_string_loop :: "nat \<Rightarrow> nat list \<Rightarrow> string \<Rightarrow> string option" where
  "to_string_loop n v str =
     (if n \<noteq> 0 then
        (case short_division n 0 10000 0 (1, 0) ((\<lambda>_. [])(0 := v, 1 := [0])) of
           None \<Rightarrow> None
         | Some s \<Rightarrow>
             let v = s 0; k = s 1 ! 0;
                 n = skip_leading_zeros n v
             in to_string_loop n v (digits_loop 0 n k str))
      else Some str)"

text \<open>
  The reversal \<open>while (str < s)\<close> at the end of \<open>to_string\<close>, on the positions \<open>lo\<close> of
  \<open>str\<close> and \<open>hi\<close> of \<open>s\<close>.
\<close>

function reverse_loop :: "nat \<Rightarrow> nat \<Rightarrow> string \<Rightarrow> string" where
  "reverse_loop lo hi str =
     (if lo < hi then
        let t = str ! lo;
            str = str[lo := str ! hi];
            str = str[hi := t]
        in reverse_loop (lo + 1) (hi - 1) str
      else str)"
  by pat_completeness auto
termination by (relation "measure (\<lambda>(lo, hi, str). hi - lo)") auto

declare reverse_loop.simps [simp del]

text \<open>
  \<open>to_string\<close> returns the characters written before the terminating \<open>'\0'\<close>.
\<close>

definition to_string :: "nat \<Rightarrow> nat list \<Rightarrow> string option" where
  "to_string n u =
     (let v = u32_to_u16 n u (replicate (n * 2) 0);
          n = skip_leading_zeros (n * 2) v
      in if n = 0 then Some [CHR ''0'']
         else case to_string_loop n v [] of
                None \<Rightarrow> None
              | Some str \<Rightarrow> Some (reverse_loop 0 (length str - 1) str))"

section \<open>Signed integer value\<close>

record bigint_t =
  length_f :: nat
  negative :: bool
  data :: "nat list"

definition bigint_create :: "nat \<Rightarrow> nat list \<Rightarrow> bool \<Rightarrow> bigint_t" where
  "bigint_create n u neg =
     (let n = skip_leading_zeros n u in
      if n = 0 then \<lparr>length_f = n, negative = False, data = []\<rparr>
      else \<lparr>length_f = n, negative = neg, data = take n u\<rparr>)"

definition bigint_create_str :: "nat \<Rightarrow> string \<Rightarrow> bigint_t option" where
  "bigint_create_str n str =
     (let u = replicate (n div 9 + 1) 0 in
      if \<not> n > 0 then None
      else if str ! 0 = CHR ''-'' then
        if \<not> n > 1 then None
        else (case from_string (n - 1) (drop 1 str) u of
                None \<Rightarrow> None
              | Some (u_length, u) \<Rightarrow> Some (bigint_create u_length u True))
      else (case from_string n str u of
              None \<Rightarrow> None
            | Some (u_length, u) \<Rightarrow> Some (bigint_create u_length u False)))"

definition bigint_max_stringlen :: "bigint_t \<Rightarrow> nat" where
  "bigint_max_stringlen x =
     (if length_f x = 0 then 1
      else length_f x * 10 + (if negative x then 1 else 0))"

text \<open>
  \<open>bigint_tostring\<close> ends with \<open>assert(strlen(str) <= bigint_max_stringlen(x))\<close>, where
  \<open>str\<close> has been moved past the minus sign.
\<close>

definition bigint_tostring :: "bigint_t \<Rightarrow> string option" where
  "bigint_tostring x =
     (case to_string (length_f x) (data x) of
        None \<Rightarrow> None
      | Some str \<Rightarrow>
          if \<not> length str \<le> bigint_max_stringlen x then None
          else Some ((if negative x then [CHR ''-''] else []) @ str))"

definition divrem :: "nat \<Rightarrow> nat list \<Rightarrow> nat \<Rightarrow> nat list \<Rightarrow> bool \<Rightarrow> bigint_t option" where
  "divrem x_len x y_len y remainder =
     (let q = replicate (x_len - y_len + 1) 0;
          r = replicate y_len 0
      in if \<not> x_len \<ge> y_len then None
         else case algorithm_d_wrapper (x_len - y_len) y_len x y q r of
                None \<Rightarrow> None
              | Some (q, r) \<Rightarrow>
                  if remainder then Some (bigint_create y_len r False)
                  else Some (bigint_create (x_len - y_len + 1) q False))"

definition bigint_div :: "bigint_t \<Rightarrow> bigint_t \<Rightarrow> bigint_t option" where
  "bigint_div x y =
     (if length_f x < length_f y then Some (bigint_create 0 [] False)
      else case divrem (length_f x) (data x) (length_f y) (data y) False of
             None \<Rightarrow> None
           | Some z \<Rightarrow> Some (z\<lparr>negative := (negative x \<noteq> negative y)\<rparr>))"

definition bigint_rem :: "bigint_t \<Rightarrow> bigint_t \<Rightarrow> bigint_t option" where
  "bigint_rem x y =
     (case (if length_f x < length_f y
            then Some (bigint_create (length_f x) (data x) False)
            else divrem (length_f x) (data x) (length_f y) (data y) True) of
        None \<Rightarrow> None
      | Some z \<Rightarrow> Some (z\<lparr>negative := negative x\<rparr>))"

section \<open>Specification\<close>

text \<open>The number that a little-endian sequence of digits in base \<open>b\<close> denotes.\<close>

fun val :: "nat \<Rightarrow> nat list \<Rightarrow> nat" where
  "val b [] = 0"
| "val b (x # xs) = x + b * val b xs"

text \<open>
  Schoolbook short division of the \<open>i\<close> low half-limbs of \<open>us\<close>, with incoming
  remainder \<open>k\<close>, by \<open>v\<close>: the quotient half-limbs, least significant first, and
  the remainder. Quotient and dividend are separate here.
\<close>

fun sdiv :: "nat \<Rightarrow> nat list \<Rightarrow> nat \<Rightarrow> nat \<Rightarrow> nat list \<times> nat" where
  "sdiv 0 us v k = ([], k)"
| "sdiv (Suc i) us v k =
     (let t = k * 65536 + us ! i in
      case sdiv i us v (t mod v) of (qs, r) \<Rightarrow> (qs @ [t div v], r))"

text \<open>The characters that \<open>from_string\<close> accepts: \<open>'0'\<close> to \<open>'9'\<close>.\<close>

definition is_digit :: "char \<Rightarrow> bool" where
  "is_digit c = (of_char CHR ''0'' \<le> (of_char c :: nat) \<and> (of_char c :: nat) \<le> of_char CHR ''9'')"

section \<open>Running the model on concrete inputs\<close>

text \<open>
  The loops that count down are defined by recursion on \<open>Suc\<close>; these equations unfold
  them at a numeral, so that the simplifier can run the model on given arrays.
\<close>

lemma short_division_loop_numeral:
  "short_division_loop (numeral w) u v q k s =
     (case div_32_by_16 k (s u ! pred_numeral w) v of
        None \<Rightarrow> None
      | Some (qd, k') \<Rightarrow>
          short_division_loop (pred_numeral w) u v q k' (s(q := (s q)[pred_numeral w := qd])))"
  by (simp only: numeral_eq_Suc [of w] short_division_loop.simps)

lemma short_division_calls_numeral:
  "short_division_calls (numeral w) u v q k s =
     (k, s u ! pred_numeral w) #
       (case div_32_by_16 k (s u ! pred_numeral w) v of
          None \<Rightarrow> []
        | Some (qd, k') \<Rightarrow>
            short_division_calls (pred_numeral w) u v q k' (s(q := (s q)[pred_numeral w := qd])))"
  by (simp only: numeral_eq_Suc [of w] short_division_calls.simps)

lemma shift_right_loop_numeral:
  "shift_right_loop (numeral w) m u k =
     (let t = push_bit (16 - m) (u ! pred_numeral w) mod 65536;
          u' = u[pred_numeral w := (drop_bit m (u ! pred_numeral w) OR k) mod 65536]
      in shift_right_loop (pred_numeral w) m u' t)"
  by (simp only: numeral_eq_Suc [of w] shift_right_loop.simps)

lemma algorithm_d_loop_numeral:
  "algorithm_d_loop (numeral w) n u v q =
     (let t = (push_bit 16 (u ! (pred_numeral w + n)) mod 2 ^ 32) OR u ! (pred_numeral w + n - 1);
          qhat = t div v ! (n - 1);
          rhat = t mod v ! (n - 1)
      in case qhat_loop n (pred_numeral w) u v qhat rhat of
           None \<Rightarrow> None
         | Some (qhat, rhat) \<Rightarrow>
             (case mulsub_loop 0 n (pred_numeral w) qhat v u 0 of
                (u, k) \<Rightarrow>
                  let q = q[pred_numeral w := qhat mod 65536] in
                  if k \<noteq> 0 then
                    let q = q[pred_numeral w := sub16 (q ! pred_numeral w) 1] in
                    (case addback_loop 0 n (pred_numeral w) v u 0 of
                       (u, k) \<Rightarrow>
                         algorithm_d_loop (pred_numeral w) n
                           (u[pred_numeral w + n := (u ! (pred_numeral w + n) + k) mod 65536]) v q)
                  else algorithm_d_loop (pred_numeral w) n u v q))"
  by (simp only: numeral_eq_Suc [of w] algorithm_d_loop.simps)

lemma skip_leading_zeros_numeral:
  "skip_leading_zeros (numeral w) v =
     (if v ! pred_numeral w = 0 then skip_leading_zeros (pred_numeral w) v else numeral w)"
  by (simp only: numeral_eq_Suc [of w] skip_leading_zeros.simps)

lemma replicate_numeral_unfold:
  "replicate (numeral w) x = x # replicate (pred_numeral w) x"
  by (simp only: numeral_eq_Suc [of w] replicate.simps)

lemmas run_kernel =
  sub16_def sub32_def mul_32_by_32_def div_32_by_16_def short_division_def
  short_division_loop_numeral short_division_calls_numeral
  leading_zeros_loop.simps leading_zeros_def
  shift_left_loop.simps shift_left_def shift_right_loop_numeral shift_right_def
  qhat_loop.simps mulsub_step_def mulsub_loop.simps addback_step_def addback_loop.simps
  algorithm_d_loop_numeral algorithm_d_def
  u32_to_u16_loop.simps u32_to_u16_def u16_to_u32_loop.simps u16_to_u32_def
  algorithm_d_wrapper_def replicate_numeral_unfold Let_def

lemmas run_strings =
  multiply_add_step_def multiply_add_loop.simps multiply_add_def pow10s_def
  from_string_loop.simps from_string_def skip_leading_zeros_numeral
  digits_loop.simps to_string_loop.simps reverse_loop.simps to_string_def
  char_of_def bit_Suc_0_iff

lemmas run_bigint =
  bigint_create_def bigint_create_str_def bigint_max_stringlen_def bigint_tostring_def
  divrem_def bigint_div_def bigint_rem_def

lemmas run_cong = let_weak_cong prod.case_cong_weak option.case_cong_weak

section \<open>Short division\<close>

lemma or_shift16:
  assumes "b < 65536"
  shows "push_bit 16 a OR b = a * 65536 + (b::nat)"
proof -
  have "take_bit 16 b = b" using assms by (simp add: take_bit_nat_eq_self_iff)
  then have "push_bit 16 a AND b = push_bit 16 a AND take_bit 16 b" by simp
  also have "\<dots> = 0"
    by (rule bit_eqI) (auto simp: bit_simps)
  finally have "push_bit 16 a + b = push_bit 16 a OR b"
    by (rule disjunctive_add_eq_or)
  then show ?thesis by (simp add: push_bit_eq_mult)
qed

lemma div_32_by_16_eq:
  assumes "u_hi < v" "v \<le> 65535" "u_lo < 65536"
  shows "div_32_by_16 u_hi u_lo v =
           Some ((u_hi * 65536 + u_lo) div v, (u_hi * 65536 + u_lo) mod v)"
proof -
  let ?t = "u_hi * 65536 + u_lo"
  have hi: "u_hi < 65536" using assms by simp
  then have "u_hi * 65536 < 2 ^ 32" by simp
  then have u: "(push_bit 16 u_hi mod 2 ^ 32) OR u_lo = ?t"
    using assms(3) by (simp add: or_shift16 [symmetric] push_bit_eq_mult)
  have vpos: "0 < v" using assms by simp
  have "(u_hi + 1) * 65536 \<le> v * 65536" using assms(1) by simp
  then have "?t < v * 65536" using assms(3) by simp
  then have q: "?t div v < 65536"
    by (simp add: less_mult_imp_div_less mult.commute)
  then have c1: "?t div v \<le> 65535" by simp
  have m1: "?t div v mod 65536 = ?t div v" using q by simp
  have "?t mod v < v" using vpos by simp
  then have "?t mod v < 65536" using assms(2) by simp
  then have m2: "?t mod v mod 65536 = ?t mod v" by simp
  show ?thesis
    unfolding div_32_by_16_def u Let_def by (simp add: vpos c1 m1 m2)
qed

lemma sdiv_cong:
  "(\<And>j. j < i \<Longrightarrow> xs ! j = ys ! j) \<Longrightarrow> sdiv i xs v k = sdiv i ys v k"
  by (induction i arbitrary: k) simp_all

lemma sdiv_length: "sdiv i us v k = (qs, r) \<Longrightarrow> length qs = i"
  by (induction i arbitrary: k qs r) (auto simp: Let_def split: prod.splits)

lemma short_division_loop_eq:
  assumes "i \<le> length (s u)" "i \<le> length (s q)" "k < v" "v \<le> 65535"
    and "\<And>j. j < i \<Longrightarrow> s u ! j < 65536"
  shows "short_division_loop i u v q k s =
           Some (s(q := fst (sdiv i (s u) v k) @ drop i (s q)), snd (sdiv i (s u) v k))"
  using assms
proof (induction i arbitrary: s k)
  case 0
  then show ?case by simp
next
  case (Suc i)
  let ?t = "k * 65536 + s u ! i"
  let ?s' = "s(q := (s q)[i := ?t div v])"
  have d: "div_32_by_16 k (s u ! i) v = Some (?t div v, ?t mod v)"
    using Suc.prems by (intro div_32_by_16_eq) simp_all
  have vpos: "0 < v" using Suc.prems by simp
  have same: "\<And>j. j < i \<Longrightarrow> ?s' u ! j = s u ! j"
    by simp
  have dig: "\<And>j. j < i \<Longrightarrow> ?s' u ! j < 65536"
  proof -
    fix j assume "j < i"
    then show "?s' u ! j < 65536" using same [of j] Suc.prems(5) [of j] by simp
  qed
  obtain qs r where sq: "sdiv i (s u) v (?t mod v) = (qs, r)"
    by (cases "sdiv i (s u) v (?t mod v)")
  have sd: "sdiv i (?s' u) v (?t mod v) = (qs, r)"
    using sdiv_cong [of i "?s' u" "s u" v "?t mod v"] same sq by simp
  have "?t mod v < v" using vpos by simp
  then have "short_division_loop i u v q (?t mod v) ?s' =
           Some (?s'(q := fst (sdiv i (?s' u) v (?t mod v)) @ drop i (?s' q)),
                 snd (sdiv i (?s' u) v (?t mod v)))"
    using Suc.prems(1-4) dig by (intro Suc.IH) simp_all
  then have IH: "short_division_loop i u v q (?t mod v) ?s' = Some (?s'(q := qs @ drop i (?s' q)), r)"
    by (simp only: sd fst_conv snd_conv)
  have "?s' q = (s q)[i := ?t div v]" by simp
  then have "drop i (?s' q) = (?t div v) # drop (Suc i) (s q)"
    using Suc.prems(2) by (simp add: upd_conv_take_nth_drop)
  then have st: "?s'(q := qs @ drop i (?s' q)) = s(q := (qs @ [?t div v]) @ drop (Suc i) (s q))"
    by simp
  have step: "sdiv (Suc i) (s u) v k = (qs @ [?t div v], r)"
    using sq by (simp add: Let_def)
  have "short_division_loop (Suc i) u v q k s = short_division_loop i u v q (?t mod v) ?s'"
    using d by simp
  also have "\<dots> = Some (s(q := (qs @ [?t div v]) @ drop (Suc i) (s q)), r)"
    by (simp only: IH st)
  finally show ?case
    by (simp only: step fst_conv snd_conv)
qed
lemma val_append: "val b (xs @ ys) = val b xs + b ^ length xs * val b ys"
  by (induction xs) (simp_all add: algebra_simps)

lemma val_bound:
  assumes "\<And>x. x \<in> set xs \<Longrightarrow> x < b"
  shows "val b xs < b ^ length xs"
  using assms
proof (induction xs)
  case Nil
  then show ?case by simp
next
  case (Cons x xs)
  have "x < b" using Cons.prems by simp
  moreover have "val b xs < b ^ length xs" using Cons by simp
  then have "val b xs + 1 \<le> b ^ length xs" by simp
  then have "b * (val b xs + 1) \<le> b * b ^ length xs" by (rule mult_le_mono2)
  ultimately show ?case by (simp add: algebra_simps)
qed

lemma short_division_loop_frame:
  "short_division_loop i u v q k s = Some (s', k') \<Longrightarrow>
     length (s' a) = length (s a) \<and> (\<forall>j\<ge>i. s' a ! j = s a ! j) \<and> (a \<noteq> q \<longrightarrow> s' a = s a)"
proof (induction i arbitrary: s k)
  case 0
  then show ?case by simp
next
  case (Suc i)
  from Suc.prems obtain qd k1 where
    d: "div_32_by_16 k (s u ! i) v = Some (qd, k1)" and
    l: "short_division_loop i u v q k1 (s(q := (s q)[i := qd])) = Some (s', k')"
    by (auto split: option.splits)
  let ?s1 = "s(q := (s q)[i := qd])"
  from Suc.IH [OF l] have
    a: "length (s' a) = length (?s1 a)" and
    b: "\<forall>j\<ge>i. s' a ! j = ?s1 a ! j" and
    c: "a \<noteq> q \<longrightarrow> s' a = ?s1 a"
    by simp_all
  have "length (s' a) = length (s a)" using a by simp
  moreover have "\<forall>j\<ge>Suc i. s' a ! j = s a ! j"
  proof (intro allI impI)
    fix j assume "Suc i \<le> j"
    then have "s' a ! j = ?s1 a ! j" and "j \<noteq> i" using b by simp_all
    then show "s' a ! j = s a ! j" by simp
  qed
  moreover have "a \<noteq> q \<longrightarrow> s' a = s a" using c by simp
  ultimately show ?case by simp
qed

text \<open>
  The run with \<open>q\<close> aliased to \<open>u\<close> on a store \<open>sa\<close> against the run with a separate
  \<open>q\<close> on a store \<open>sd\<close>, when the two stores agree on the part of \<open>u\<close> that is
  still to be read.
\<close>

lemma short_division_loop_alias:
  assumes "q \<noteq> u" "i \<le> length (sa u)" "i \<le> length (sd q)"
    and "\<And>j. j < i \<Longrightarrow> sa u ! j = sd u ! j"
  shows "rel_option (\<lambda>(sa', ka) (sd', kd). ka = kd \<and> take i (sa' u) = take i (sd' q))
           (short_division_loop i u v u k sa) (short_division_loop i u v q k sd)"
  using assms(2-)
proof (induction i arbitrary: sa sd k)
  case 0
  then show ?case by simp
next
  case (Suc i)
  have rd: "sa u ! i = sd u ! i" using Suc.prems(3) by simp
  show ?case
  proof (cases "div_32_by_16 k (sd u ! i) v")
    case None
    then show ?thesis using rd by simp
  next
    case (Some p)
    obtain qd k1 where p: "p = (qd, k1)" by (cases p)
    let ?sa1 = "sa(u := (sa u)[i := qd])" and ?sd1 = "sd(q := (sd q)[i := qd])"
    have agree: "\<And>j. j < i \<Longrightarrow> ?sa1 u ! j = ?sd1 u ! j"
      using Suc.prems(3) assms(1) by simp
    have IH: "rel_option (\<lambda>(sa', ka) (sd', kd). ka = kd \<and> take i (sa' u) = take i (sd' q))
           (short_division_loop i u v u k1 ?sa1) (short_division_loop i u v q k1 ?sd1)"
      using Suc.prems(1,2) agree by (intro Suc.IH) simp_all
    have la: "short_division_loop (Suc i) u v u k sa = short_division_loop i u v u k1 ?sa1"
      using Some p rd by simp
    have ld: "short_division_loop (Suc i) u v q k sd = short_division_loop i u v q k1 ?sd1"
      using Some p by simp
    show ?thesis
    proof (cases "short_division_loop i u v u k1 ?sa1")
      case None
      then show ?thesis using IH la ld by (cases "short_division_loop i u v q k1 ?sd1") simp_all
    next
      case sa': (Some ra)
      then obtain rd' where sd': "short_division_loop i u v q k1 ?sd1 = Some rd'"
        using IH by (cases "short_division_loop i u v q k1 ?sd1") simp_all
      obtain sa2 ka where ra: "ra = (sa2, ka)" by (cases ra)
      obtain sd2 kd where rd': "rd' = (sd2, kd)" by (cases rd')
      have eqk: "ka = kd" and tk: "take i (sa2 u) = take i (sd2 q)"
        using IH sa' sd' ra rd' by simp_all
      have fa: "length (sa2 u) = length (?sa1 u)" "sa2 u ! i = ?sa1 u ! i"
        using short_division_loop_frame [OF sa' [unfolded ra], of u] by simp_all
      have fd: "length (sd2 q) = length (?sd1 q)" "sd2 q ! i = ?sd1 q ! i"
        using short_division_loop_frame [OF sd' [unfolded rd'], of q] by simp_all
      have "sa2 u ! i = sd2 q ! i"
        using fa(2) fd(2) Suc.prems(1,2) by simp
      moreover have "i < length (sa2 u)" "i < length (sd2 q)"
        using fa(1) fd(1) Suc.prems(1,2) by simp_all
      ultimately have "take (Suc i) (sa2 u) = take (Suc i) (sd2 q)"
        using tk by (simp add: take_Suc_conv_app_nth)
      then show ?thesis
        using la ld sa' sd' ra rd' eqk by simp
    qed
  qed
qed

lemma div_32_by_16_quotient:
  fixes u_hi u_lo v :: nat
  assumes "u_hi < v" "u_lo < 65536"
  shows "(u_hi * 65536 + u_lo) div v \<le> 65535"
proof -
  have "(u_hi + 1) * 65536 \<le> v * 65536" using assms(1) by simp
  then have "u_hi * 65536 + u_lo < v * 65536" using assms(2) by simp
  then have "(u_hi * 65536 + u_lo) div v < 65536"
    by (simp add: less_mult_imp_div_less mult.commute)
  then show ?thesis by simp
qed

lemma short_division_calls_ok:
  assumes "i \<le> length (s u)" "i \<le> length (s q)" "k < v" "v \<le> 65535"
    and "\<And>j. j < i \<Longrightarrow> s u ! j < 65536"
  shows "length (short_division_calls i u v q k s) = i \<and>
         (\<forall>(k', u_lo) \<in> set (short_division_calls i u v q k s). k' < v \<and> u_lo < 65536)"
  using assms
proof (induction i arbitrary: s k)
  case 0
  then show ?case by simp
next
  case (Suc i)
  let ?t = "k * 65536 + s u ! i"
  let ?s' = "s(q := (s q)[i := ?t div v])"
  have d: "div_32_by_16 k (s u ! i) v = Some (?t div v, ?t mod v)"
    using Suc.prems by (intro div_32_by_16_eq) simp_all
  have vpos: "0 < v" using Suc.prems by simp
  have dig: "\<And>j. j < i \<Longrightarrow> ?s' u ! j < 65536"
  proof -
    fix j assume "j < i"
    then have "?s' u ! j = s u ! j" by simp
    then show "?s' u ! j < 65536" using Suc.prems(5) [of j] \<open>j < i\<close> by simp
  qed
  have "?t mod v < v" using vpos by simp
  then have IH: "length (short_division_calls i u v q (?t mod v) ?s') = i \<and>
         (\<forall>(k', u_lo) \<in> set (short_division_calls i u v q (?t mod v) ?s'). k' < v \<and> u_lo < 65536)"
    using Suc.prems(1-4) dig by (intro Suc.IH) simp_all
  have "short_division_calls (Suc i) u v q k s =
          (k, s u ! i) # short_division_calls i u v q (?t mod v) ?s'"
    using d by simp
  moreover have "s u ! i < 65536" using Suc.prems(5) by simp
  ultimately show ?case using IH Suc.prems(3) by simp
qed

text \<open>
  Claim C7. In a call of \<open>short_division\<close> with \<open>n > 0\<close> and a non-zero \<open>uint16_t\<close>
  divisor \<open>v\<close> on \<open>uint16_t\<close> digits, all \<open>n\<close> iterations of the sweep are reached,
  every call of \<open>div_32_by_16\<close> has a running remainder \<open>k < v\<close> as its high half,
  its quotient fits in 16 bits, so that neither assertion of \<open>div_32_by_16\<close> fails, and
  \<open>short_division\<close> returns normally. This holds for every placement of the quotient
  array, the dividend array itself included.
\<close>

theorem short_division_no_overflow:
  assumes "0 < n" "0 < v" "v \<le> 65535" "n \<le> length (s u)" "n \<le> length (s q)"
    and "\<And>j. j < n \<Longrightarrow> s u ! j < 65536"
  shows "length (short_division_calls n u v q 0 s) = n \<and>
         (\<forall>(k, u_lo) \<in> set (short_division_calls n u v q 0 s).
            k < v \<and> (k * 65536 + u_lo) div v \<le> 65535 \<and> div_32_by_16 k u_lo v \<noteq> None) \<and>
         short_division n u v q r s \<noteq> None"
proof -
  have c: "length (short_division_calls n u v q 0 s) = n \<and>
         (\<forall>(k', u_lo) \<in> set (short_division_calls n u v q 0 s). k' < v \<and> u_lo < 65536)"
    using assms by (intro short_division_calls_ok) simp_all
  have "\<forall>(k, u_lo) \<in> set (short_division_calls n u v q 0 s).
            k < v \<and> (k * 65536 + u_lo) div v \<le> 65535 \<and> div_32_by_16 k u_lo v \<noteq> None"
  proof (clarify, intro conjI)
    fix k u_lo assume "(k, u_lo) \<in> set (short_division_calls n u v q 0 s)"
    then have b: "k < v" "u_lo < 65536" using c by auto
    show "k < v" by (rule b)
    show "(k * 65536 + u_lo) div v \<le> 65535" using b by (rule div_32_by_16_quotient)
    show "div_32_by_16 k u_lo v \<noteq> None" using div_32_by_16_eq [OF b(1) assms(3) b(2)] by simp
  qed
  moreover have "short_division_loop n u v q 0 s \<noteq> None"
    using short_division_loop_eq [of n s u q 0 v] assms by simp
  then have "short_division n u v q r s \<noteq> None"
    using assms(1,2) by (auto simp: short_division_def split: option.splits)
  ultimately show ?thesis using c by simp
qed

text \<open>
  Claim C10. \<open>short_division\<close> with the quotient array \<open>q\<close> being the dividend array
  \<open>u\<close> itself leaves in \<open>u\<close> the quotient digits, and in the cell \<open>r\<close> the remainder,
  that the run with a separate array \<open>q\<close> leaves in \<open>q\<close> and \<open>r\<close>; the one fails an
  assertion exactly when the other does. The in-place division by 10000 in
  \<open>to_string\<close> is the instance \<open>u = q = v\<close>, \<open>r = &k\<close>.
\<close>

theorem short_division_alias_equiv:
  assumes "q \<noteq> u" "fst r \<noteq> u" "fst r \<noteq> q" "n \<le> length (s u)" "n \<le> length (s q)"
  shows "map_option (\<lambda>s'. (take n (s' u), s' (fst r))) (short_division n u v u r s) =
         map_option (\<lambda>s'. (take n (s' q), s' (fst r))) (short_division n u v q r s)"
proof (cases "0 < v \<and> 0 < n")
  case False
  then show ?thesis by (auto simp: short_division_def)
next
  case True
  have rel: "rel_option (\<lambda>(sa', ka) (sd', kd). ka = kd \<and> take n (sa' u) = take n (sd' q))
           (short_division_loop n u v u 0 s) (short_division_loop n u v q 0 s)"
    using assms by (intro short_division_loop_alias) simp_all
  show ?thesis
  proof (cases "short_division_loop n u v u 0 s")
    case None
    then have "short_division_loop n u v q 0 s = None"
      using rel by (cases "short_division_loop n u v q 0 s") simp_all
    then show ?thesis using None by (simp add: short_division_def)
  next
    case (Some ra)
    then obtain rd where sd: "short_division_loop n u v q 0 s = Some rd"
      using rel by (cases "short_division_loop n u v q 0 s") simp_all
    obtain sa2 ka where ra: "ra = (sa2, ka)" by (cases ra)
    obtain sd2 kd where rd: "rd = (sd2, kd)" by (cases rd)
    have eqk: "ka = kd" and tk: "take n (sa2 u) = take n (sd2 q)"
      using rel Some sd ra rd by simp_all
    have "sa2 (fst r) = s (fst r)"
      using short_division_loop_frame [OF Some [unfolded ra], of "fst r"] assms(2) by simp
    moreover have "sd2 (fst r) = s (fst r)"
      using short_division_loop_frame [OF sd [unfolded rd], of "fst r"] assms(3) by simp
    ultimately show ?thesis
      using True Some sd ra rd eqk tk assms(2,3) by (simp add: short_division_def)
  qed
qed

theorem short_division_no_overflow_witness:
  "length (short_division_calls 2 0 10000 0 0 ((\<lambda>_. [])(0 := [1, 2], 1 := [0]))) = 2 \<and>
   short_division 2 0 10000 0 (1, 0) ((\<lambda>_. [])(0 := [1, 2], 1 := [0])) \<noteq> None"
proof -
  let ?s = "(\<lambda>_. [])(0 := [1, 2], 1 := [0]) :: store"
  have d: "\<And>j. j < 2 \<Longrightarrow> ?s 0 ! j < 65536"
  proof -
    fix j :: nat assume "j < 2"
    then have "j = 0 \<or> j = 1" by arith
    then show "?s 0 ! j < 65536" by auto
  qed
  have l: "2 \<le> length (?s 0)" by simp
  have h1: "(0::nat) < 2" and h2: "(0::nat) < 10000" and h3: "(10000::nat) \<le> 65535"
    by simp_all
  have "length (short_division_calls 2 0 10000 0 0 ?s) = 2 \<and>
         (\<forall>(k, u_lo) \<in> set (short_division_calls 2 0 10000 0 0 ?s).
            k < 10000 \<and> (k * 65536 + u_lo) div 10000 \<le> 65535 \<and> div_32_by_16 k u_lo 10000 \<noteq> None) \<and>
         short_division 2 0 10000 0 (1, 0) ?s \<noteq> None"
    by (rule short_division_no_overflow
          [of 2 10000 "(\<lambda>_. [])(0 := [1, 2], 1 := [0])" 0 0 "(1, 0)", OF h1 h2 h3 l l d])
  then show ?thesis by blast
qed

theorem short_division_alias_equiv_witness:
  "map_option (\<lambda>s'. (take 2 (s' 0), s' (fst (1::nat, 0::nat))))
     (short_division 2 0 10000 0 (1, 0) ((\<lambda>_. [])(0 := [1, 2], 1 := [0], 2 := [0, 0]))) =
   map_option (\<lambda>s'. (take 2 (s' 2), s' (fst (1::nat, 0::nat))))
     (short_division 2 0 10000 2 (1, 0) ((\<lambda>_. [])(0 := [1, 2], 1 := [0], 2 := [0, 0]))) \<and>
   map_option (\<lambda>s'. (take 2 (s' 0), s' 1))
     (short_division 2 0 10000 0 (1, 0) ((\<lambda>_. [])(0 := [1, 2], 1 := [0], 2 := [0, 0]))) =
   Some ([13, 0], [1073])"
proof (rule conjI)
  let ?s = "(\<lambda>_. [])(0 := [1, 2], 1 := [0], 2 := [0, 0]) :: store"
  show "map_option (\<lambda>s'. (take 2 (s' 0), s' (fst (1::nat, 0::nat)))) (short_division 2 0 10000 0 (1, 0) ?s) =
        map_option (\<lambda>s'. (take 2 (s' 2), s' (fst (1::nat, 0::nat)))) (short_division 2 0 10000 2 (1, 0) ?s)"
    by (rule short_division_alias_equiv) simp_all
  show "map_option (\<lambda>s'. (take 2 (s' 0), s' 1)) (short_division 2 0 10000 0 (1, 0) ?s) =
           Some ([13, 0], [1073])"
    by (simp add: run_kernel cong: run_cong)
qed
section \<open>The correction of the quotient estimate\<close>

lemma qhat_compared_bounds:
  assumes "rhat \<le> 65535"
  shows "\<forall>(qh, rh) \<in> set (qhat_compared n j u v qhat rhat). qh \<le> 65535 \<and> rh \<le> 65535"
  using assms
proof (induction n j u v qhat rhat rule: qhat_compared.induct)
  case (1 n j u v qhat rhat)
  show ?case
  proof (cases "2 \<le> n \<and> (qhat > 65535 \<or>
              (qhat * v ! (n - 2)) mod 2 ^ 32 >
                ((push_bit 16 rhat mod 2 ^ 32) OR u ! (j + n - 2))) \<and>
              (rhat + v ! (n - 1)) mod 2 ^ 32 \<le> 65535")
    case True
    then have "\<forall>(qh, rh) \<in> set (qhat_compared n j u v (sub32 qhat 1) ((rhat + v ! (n - 1)) mod 2 ^ 32)).
                 qh \<le> 65535 \<and> rh \<le> 65535"
      by (intro "1.IH") simp_all
    then show ?thesis
      using True "1.prems" by (subst qhat_compared.simps) (auto simp: Let_def)
  next
    case False
    then show ?thesis
      using "1.prems" by (subst qhat_compared.simps) (auto simp: Let_def)
  qed
qed

text \<open>
  Claim C6. In the correction loop of \<open>algorithm_d\<close>, entered with
  \<open>qhat = t / v[n - 1]\<close> and \<open>rhat = t % v[n - 1]\<close> for a non-zero \<open>uint16_t\<close> divisor
  digit, every evaluation of \<open>qhat * v[n - 2] > ((rhat << 16) | u[j + n - 2])\<close> has
  \<open>qhat \<le> 2^16 - 1\<close> and \<open>rhat \<le> 2^16 - 1\<close>; both sides are below \<open>2^32\<close>, and the
  comparison of the 32-bit values is the comparison of \<open>qhat * v[n - 2]\<close> with
  \<open>rhat * 2^16 + u[j + n - 2]\<close> in the natural numbers.
\<close>

theorem qhat_comparison_exact:
  assumes "v ! (n - 1) \<noteq> 0" "v ! (n - 1) \<le> 65535" "v ! (n - 2) \<le> 65535"
    and "u ! (j + n - 2) \<le> 65535"
  shows "\<forall>(qhat, rhat) \<in> set (qhat_compared n j u v (t div v ! (n - 1)) (t mod v ! (n - 1))).
           qhat \<le> 65535 \<and> rhat \<le> 65535 \<and>
           qhat * v ! (n - 2) < 2 ^ 32 \<and>
           rhat * 65536 + u ! (j + n - 2) < 2 ^ 32 \<and>
           (((qhat * v ! (n - 2)) mod 2 ^ 32 >
               ((push_bit 16 rhat mod 2 ^ 32) OR u ! (j + n - 2))) \<longleftrightarrow>
             qhat * v ! (n - 2) > rhat * 65536 + u ! (j + n - 2))"
proof -
  have "t mod v ! (n - 1) < v ! (n - 1)" using assms(1) by simp
  then have "t mod v ! (n - 1) \<le> 65535" using assms(2) by simp
  then have b: "\<forall>(qh, rh) \<in> set (qhat_compared n j u v (t div v ! (n - 1)) (t mod v ! (n - 1))).
                  qh \<le> 65535 \<and> rh \<le> 65535"
    by (rule qhat_compared_bounds)
  show ?thesis
  proof (clarify, intro conjI)
    fix qhat rhat
    assume "(qhat, rhat) \<in> set (qhat_compared n j u v (t div v ! (n - 1)) (t mod v ! (n - 1)))"
    then have q: "qhat \<le> 65535" and r: "rhat \<le> 65535" using b by auto
    show "qhat \<le> 65535" by (rule q)
    show "rhat \<le> 65535" by (rule r)
    have "qhat * v ! (n - 2) \<le> 65535 * 65535"
      using q assms(3) by (rule mult_le_mono)
    then show l: "qhat * v ! (n - 2) < 2 ^ 32" by simp
    have "rhat * 65536 \<le> 65535 * 65536" using r by simp
    then show h: "rhat * 65536 + u ! (j + n - 2) < 2 ^ 32" using assms(4) by simp
    have "rhat * 65536 < 2 ^ 32" using h by simp
    then have "(push_bit 16 rhat mod 2 ^ 32) OR u ! (j + n - 2) = rhat * 65536 + u ! (j + n - 2)"
      using assms(4) by (simp add: or_shift16 [symmetric] push_bit_eq_mult)
    then show "((qhat * v ! (n - 2)) mod 2 ^ 32 >
               ((push_bit 16 rhat mod 2 ^ 32) OR u ! (j + n - 2))) \<longleftrightarrow>
             qhat * v ! (n - 2) > rhat * 65536 + u ! (j + n - 2)"
      using l by simp
  qed
qed

theorem qhat_comparison_exact_witness:
  "qhat_compared 2 0 [0, 0, 32767] [65535, 32768] ((32767 * 65536) div 32768) ((32767 * 65536) mod 32768) =
     [(65534, 0), (65533, 32768)] \<and>
   (65533::nat) * 65535 < 2 ^ 32 \<and>
   (((65533 * 65535) mod 2 ^ 32 > ((push_bit 16 32768 mod 2 ^ 32) OR (0::nat))) \<longleftrightarrow>
      (65533::nat) * 65535 > 32768 * 65536 + 0)"
proof -
  have e: "qhat_compared 2 0 [0, 0, 32767] [65535, 32768] ((32767 * 65536) div 32768) ((32767 * 65536) mod 32768) =
     [(65534, 0), (65533, 32768)]"
    by (simp add: qhat_compared.simps sub32_def Let_def cong: run_cong)
  have "\<forall>(qhat, rhat) \<in> set (qhat_compared 2 0 [0, 0, 32767] [65535, 32768]
             ((32767 * 65536) div [65535, 32768] ! (2 - 1)) ((32767 * 65536) mod [65535, 32768] ! (2 - 1))).
           qhat \<le> 65535 \<and> rhat \<le> 65535 \<and>
           qhat * [65535, 32768] ! (2 - 2) < 2 ^ 32 \<and>
           rhat * 65536 + [0, 0, 32767] ! (0 + 2 - 2) < 2 ^ 32 \<and>
           (((qhat * [65535, 32768] ! (2 - 2)) mod 2 ^ 32 >
               ((push_bit 16 rhat mod 2 ^ 32) OR [0, 0, 32767] ! (0 + 2 - 2))) \<longleftrightarrow>
             qhat * [65535, 32768] ! (2 - 2) > rhat * 65536 + [0, 0, 32767] ! (0 + 2 - 2))"
    by (rule qhat_comparison_exact) simp_all
  then have "\<forall>(qhat, rhat) \<in> set [(65534, 0), (65533, 32768::nat)].
           qhat \<le> 65535 \<and> rhat \<le> 65535 \<and>
           qhat * 65535 < (2::nat) ^ 32 \<and>
           rhat * 65536 + 0 < (2::nat) ^ 32 \<and>
           (((qhat * 65535) mod 2 ^ 32 >
               ((push_bit 16 rhat mod 2 ^ 32) OR 0)) \<longleftrightarrow>
             qhat * 65535 > rhat * 65536 + 0)"
    using e by simp
  then show ?thesis using e by simp
qed
section \<open>Decimal string to magnitude\<close>

lemma multiply_add_loop_Some:
  assumes "m \<le> length u"
  shows "\<exists>u' k'. multiply_add_loop i m x u k = Some (u', k') \<and> length u' = length u"
  using assms
proof (induction i m x u k rule: multiply_add_loop.induct)
  case (1 i m x u k)
  show ?case
  proof (cases "i < m")
    case True
    then have il: "i < length u" using "1.prems" by simp
    obtain u1 k1 where st: "multiply_add_step i x u k = (u1, k1)"
      by (cases "multiply_add_step i x u k")
    then have len: "length u1 = length u"
      by (auto simp: multiply_add_step_def Let_def split: prod.splits)
    have "\<exists>u' k'. multiply_add_loop (i + 1) m x u1 k1 = Some (u', k') \<and> length u' = length u1"
      using True il st "1.prems" len by (intro "1.IH") simp_all
    then show ?thesis
      using True il st len by (subst multiply_add_loop.simps) simp
  next
    case False
    then show ?thesis by (subst multiply_add_loop.simps) simp
  qed
qed

lemma multiply_add_Some:
  assumes "m < length u"
  shows "\<exists>u' m'. multiply_add u m x y = Some (u', m') \<and> m' \<le> m + 1 \<and> length u' = length u"
proof -
  from assms have "m \<le> length u" by simp
  from multiply_add_loop_Some [OF this, of 0 x y]
  obtain u1 k1 where l: "multiply_add_loop 0 m x u y = Some (u1, k1)" and len: "length u1 = length u"
    by blast
  show ?thesis using l len assms by (simp add: multiply_add_def)
qed

lemma from_string_loop_Some:
  assumes "1 \<le> i" "n div 9 + 1 \<le> length u"
    and "u_len \<le> n div 9 + 1" "i \<le> n \<Longrightarrow> u_len \<le> (i - 1) div 9"
    and "\<And>p. i - 1 \<le> p \<Longrightarrow> p < n \<Longrightarrow> is_digit (str ! p)"
  shows "\<exists>u_len' u'. from_string_loop i n str u_len u chunk = Some (u_len', u') \<and>
           u_len' \<le> n div 9 + 1 \<and> length u' = length u"
  using assms
proof (induction i n str u_len u chunk rule: from_string_loop.induct)
  case (1 i n str u_len u chunk)
  show ?case
  proof (cases "i \<le> n")
    case False
    then show ?thesis using "1.prems" by (subst from_string_loop.simps) simp
  next
    case True
    let ?c = "of_char (str ! (i - 1)) :: nat"
    let ?chunk = "sub32 ((chunk * 10 + ?c) mod 2 ^ 32) (of_char CHR ''0'')"
    have dig: "is_digit (str ! (i - 1))" using "1.prems"(1,5) True by simp
    then have dc: "?c \<ge> of_char CHR ''0'' \<and> ?c \<le> of_char CHR ''9''"
      by (simp add: is_digit_def)
    have ul: "u_len \<le> (i - 1) div 9" using "1.prems"(4) True by simp
    have "(i - 1) div 9 \<le> n div 9" using True by (simp add: div_le_mono)
    then have ub: "u_len < length u" using ul "1.prems"(2) by simp
    show ?thesis
    proof (cases "i mod 9 = 0 \<or> i = n")
      case False
      have "(i - 1) div 9 \<le> (i + 1 - 1) div 9" by (simp add: div_le_mono)
      then have "\<exists>u_len' u'. from_string_loop (i + 1) n str u_len u ?chunk = Some (u_len', u') \<and>
           u_len' \<le> n div 9 + 1 \<and> length u' = length u"
        using True False dc ul "1.prems" by (intro "1.IH"(2)) auto
      then show ?thesis
        using True False dc by (subst from_string_loop.simps) (simp add: Let_def)
    next
      case call: True
      obtain u1 m1 where ma: "multiply_add u u_len (pow10s ! (i mod 9)) ?chunk = Some (u1, m1)"
        and m1: "m1 \<le> u_len + 1" and len: "length u1 = length u"
        using multiply_add_Some [OF ub] by blast
      have a: "m1 \<le> n div 9 + 1" using m1 ul \<open>(i - 1) div 9 \<le> n div 9\<close> by simp
      have b: "i + 1 \<le> n \<Longrightarrow> m1 \<le> (i + 1 - 1) div 9"
      proof -
        assume "i + 1 \<le> n"
        then have "i mod 9 = 0" using call by simp
        then obtain k where k: "i = 9 * k" by (auto simp: mod_eq_0_iff_dvd elim: dvdE)
        then obtain k' where k': "k = Suc k'" using "1.prems"(1) by (cases k) auto
        have "i - 1 = 8 + k' * 9" using k k' by simp
        then have "(i - 1) div 9 = k'" by simp
        moreover have "i div 9 = Suc k'" using k k' by simp
        ultimately show ?thesis using m1 ul by simp
      qed
      have "\<exists>u_len' u'. from_string_loop (i + 1) n str m1 u1 0 = Some (u_len', u') \<and>
           u_len' \<le> n div 9 + 1 \<and> length u' = length u1"
        using True call dc ma a b len "1.prems"(2,5) by (intro "1.IH"(1)) auto
      then show ?thesis
        using True call dc ma len by (subst from_string_loop.simps) (simp add: Let_def)
    qed
  qed
qed

text \<open>
  Claim C9. For a string of \<open>n\<close> decimal digits and a buffer of at least \<open>n / 9 + 1\<close>
  limbs, as \<open>bigint_create_str\<close> allocates, \<open>from_string\<close> returns normally: no assertion
  fails and no write of \<open>multiply_add\<close> falls outside the buffer. The limb count
  \<open>u_len\<close> it produces is at most \<open>n / 9 + 1\<close>.
\<close>

theorem from_string_within_buffer:
  assumes "length str = n" "\<And>c. c \<in> set str \<Longrightarrow> is_digit c" "n div 9 + 1 \<le> length u"
  shows "\<exists>u_len u'. from_string n str u = Some (u_len, u') \<and>
           u_len \<le> n div 9 + 1 \<and> length u' = length u"
  unfolding from_string_def using assms
  by (intro from_string_loop_Some) simp_all

theorem from_string_within_buffer_witness:
  "from_string 10 ''4294967296'' (replicate (10 div 9 + 1) 0) = Some (2, [0, 1])"
proof -
  have "\<exists>u_len u'. from_string 10 ''4294967296'' (replicate (10 div 9 + 1) 0) = Some (u_len, u') \<and>
           u_len \<le> 10 div 9 + 1 \<and> length u' = length (replicate (10 div 9 + 1) (0::nat))"
    by (rule from_string_within_buffer) (auto simp: is_digit_def)
  then show ?thesis
    by (simp add: run_strings run_kernel cong: run_cong)
qed
section \<open>Long division\<close>

text \<open>
  The arithmetic behind the estimate. \<open>W\<close> is the \<open>(n + 1)\<close>-digit window of the
  dividend with leading digits \<open>u0\<close>, \<open>u1\<close>, \<open>u2\<close>, and \<open>V\<close> the divisor with leading
  digits \<open>v1\<close>, \<open>v2\<close>; \<open>K\<close> is the weight of the digit \<open>u2\<close>.
\<close>

lemma knuth_u0_le_v1:
  fixes u0 u1 u2 v1 v2 Wl Vl K W V :: nat
  assumes W: "W = (u0 * 65536 * 65536 + u1 * 65536 + u2) * K + Wl"
    and V: "V = (v1 * 65536 + v2) * K + Vl" and "Vl < K" "v2 < 65536"
    and lt: "W < 65536 * V"
  shows "u0 \<le> v1"
proof (rule ccontr)
  assume "\<not> u0 \<le> v1"
  then have "v1 + 1 \<le> u0" by simp
  then have "(v1 + 1) * (65536 * 65536 * K) \<le> u0 * (65536 * 65536 * K)"
    by (rule mult_le_mono1)
  also have "\<dots> \<le> W" unfolding W by (simp add: algebra_simps)
  finally have a: "(v1 + 1) * (65536 * 65536 * K) \<le> W" .
  have "v2 * K + Vl < 65536 * K"
  proof -
    have "v2 * K + Vl < v2 * K + K" using assms(3) by simp
    also have "\<dots> = (v2 + 1) * K" by simp
    also have "\<dots> \<le> 65536 * K" using assms(4) by (intro mult_le_mono1) simp
    finally show ?thesis .
  qed
  then have "V < (v1 + 1) * (65536 * K)" unfolding V by (simp add: algebra_simps)
  then have "65536 * V < 65536 * ((v1 + 1) * (65536 * K))" by simp
  then show False using a lt by (simp add: algebra_simps)
qed

lemma knuth_initial:
  fixes u0 u1 u2 v1 v2 Wl Vl K W V :: nat
  assumes W: "W = (u0 * 65536 * 65536 + u1 * 65536 + u2) * K + Wl" and "Wl < K" "u2 < 65536"
    and V: "V = (v1 * 65536 + v2) * K + Vl" and "0 < v1"
  shows "W div V \<le> (u0 * 65536 + u1) div v1"
proof -
  let ?q = "W div V" and ?t = "u0 * 65536 + u1"
  have "u2 * K + Wl < 65536 * K"
  proof -
    have "u2 * K + Wl < u2 * K + K" using assms(2) by simp
    also have "\<dots> = (u2 + 1) * K" by simp
    also have "\<dots> \<le> 65536 * K" using assms(3) by (intro mult_le_mono1) simp
    finally show ?thesis .
  qed
  then have Wub: "W < (?t + 1) * (65536 * K)" unfolding W by (simp add: algebra_simps)
  have "v1 * (65536 * K) \<le> V" unfolding V by (simp add: algebra_simps)
  then have "?q * (v1 * (65536 * K)) \<le> ?q * V" by (rule mult_le_mono2)
  also have "\<dots> \<le> W" by simp
  finally have "(?q * v1) * (65536 * K) < (?t + 1) * (65536 * K)"
    using Wub by (simp add: mult.assoc)
  then have "?q * v1 < ?t + 1" by (simp only: mult_less_cancel2)
  then have "?q * v1 \<le> ?t" by simp
  then show ?thesis using assms(5) by (simp add: less_eq_div_iff_mult_less_eq)
qed

lemma knuth_too_large:
  fixes u0 u1 u2 v1 v2 Wl Vl K W V qhat rhat :: nat
  assumes W: "W = (u0 * 65536 * 65536 + u1 * 65536 + u2) * K + Wl" and "Wl < K"
    and V: "V = (v1 * 65536 + v2) * K + Vl" and "0 < v1"
    and inv: "qhat * v1 + rhat = u0 * 65536 + u1"
    and test: "qhat * v2 > rhat * 65536 + u2"
  shows "W div V < qhat"
proof -
  have Vpos: "0 < V" unfolding V using assms(2,4) by simp
  have "W < (u0 * 65536 * 65536 + u1 * 65536 + u2 + 1) * K"
    unfolding W using assms(2) by simp
  also have "u0 * 65536 * 65536 + u1 * 65536 + u2 + 1 = (qhat * v1 + rhat) * 65536 + u2 + 1"
    unfolding inv by (simp add: algebra_simps)
  also have "\<dots> \<le> qhat * v1 * 65536 + qhat * v2"
    using test by (simp add: algebra_simps)
  also have "\<dots> * K = qhat * ((v1 * 65536 + v2) * K)" by (simp add: algebra_simps)
  also have "\<dots> \<le> qhat * V" unfolding V by simp
  finally have "W < qhat * V" by simp
  then show ?thesis using Vpos by (simp add: div_less_iff_less_mult)
qed

lemma knuth_close:
  fixes u0 u1 u2 v1 v2 Wl Vl K W V qhat rhat :: nat
  assumes W: "W = (u0 * 65536 * 65536 + u1 * 65536 + u2) * K + Wl"
    and V: "V = (v1 * 65536 + v2) * K + Vl" and "Vl < K" and "0 < v1"
    and inv: "qhat * v1 + rhat = u0 * 65536 + u1"
    and test: "qhat * v2 \<le> rhat * 65536 + u2"
    and small: "qhat \<le> 65536"
  shows "qhat \<le> W div V + 1"
proof (cases qhat)
  case 0
  then show ?thesis by simp
next
  case (Suc p)
  let ?V2 = "v1 * 65536 + v2" and ?U3 = "u0 * 65536 * 65536 + u1 * 65536 + u2"
  have Vpos: "0 < V" unfolding V using assms(3,4) by simp
  have "qhat * ?V2 = (qhat * v1) * 65536 + qhat * v2" by (simp add: algebra_simps)
  also have "\<dots> \<le> (qhat * v1) * 65536 + (rhat * 65536 + u2)" using test by simp
  also have "\<dots> = (qhat * v1 + rhat) * 65536 + u2" by (simp add: algebra_simps)
  also have "\<dots> = ?U3" unfolding inv by (simp add: algebra_simps)
  finally have a: "p * ?V2 + ?V2 \<le> ?U3" using Suc by simp
  have "65536 \<le> ?V2" using assms(4) by simp
  then have "p \<le> ?V2" using small Suc by simp
  then have b: "p * ?V2 + p \<le> ?U3" using a by simp
  have "V \<le> (?V2 + 1) * K" unfolding V using assms(3) by simp
  then have "p * V \<le> p * ((?V2 + 1) * K)" by (rule mult_le_mono2)
  also have "\<dots> = (p * ?V2 + p) * K" by (simp add: algebra_simps)
  also have "\<dots> \<le> ?U3 * K" using b by (rule mult_le_mono1)
  also have "\<dots> \<le> W" unfolding W by simp
  finally have "p * V \<le> W" .
  then have "p \<le> W div V" using Vpos by (simp add: less_eq_div_iff_mult_less_eq)
  then show ?thesis using Suc by simp
qed
lemma cmp32_exact:
  fixes qhat rhat v2 u2 :: nat
  assumes "qhat \<le> 65535" "rhat \<le> 65535" "v2 \<le> 65535" "u2 \<le> 65535"
  shows "((qhat * v2) mod 2 ^ 32 > ((push_bit 16 rhat mod 2 ^ 32) OR u2)) \<longleftrightarrow>
           qhat * v2 > rhat * 65536 + u2"
proof -
  have "qhat * v2 \<le> 65535 * 65535" using assms(1,3) by (rule mult_le_mono)
  then have l: "qhat * v2 < 2 ^ 32" by simp
  have "rhat * 65536 \<le> 65535 * 65536" using assms(2) by simp
  then have "rhat * 65536 < 2 ^ 32" by simp
  then have "(push_bit 16 rhat mod 2 ^ 32) OR u2 = rhat * 65536 + u2"
    using assms(4) by (simp add: or_shift16 [symmetric] push_bit_eq_mult)
  then show ?thesis using l by simp
qed

lemma sub32_pred:
  assumes "0 < a" "a < 2 ^ 32"
  shows "sub32 a 1 = a - 1"
proof -
  have "(int a - 1) mod 2 ^ 32 = int a - 1" using assms by simp
  then show ?thesis using assms by (simp add: sub32_def)
qed

lemma qhat_loop_correct:
  fixes W V Wl Vl K u0 u1 :: nat
  assumes "2 \<le> n"
    and "W = (u0 * 65536 * 65536 + u1 * 65536 + u ! (j + n - 2)) * K + Wl" and "Wl < K"
    and "V = (v ! (n - 1) * 65536 + v ! (n - 2)) * K + Vl" and "Vl < K"
    and "u1 \<le> 65535" "u ! (j + n - 2) \<le> 65535" "v ! (n - 1) \<le> 65535" "v ! (n - 2) \<le> 65535"
    and "0 < v ! (n - 1)"
    and "W < 65536 * V"
    and "qhat * v ! (n - 1) + rhat = u0 * 65536 + u1" "W div V \<le> qhat"
      "rhat \<le> 65535" "qhat < 2 ^ 32"
  shows "\<exists>qhat' rhat'. qhat_loop n j u v qhat rhat = Some (qhat', rhat') \<and>
           W div V \<le> qhat' \<and> qhat' \<le> W div V + 1 \<and> qhat' \<le> 65535"
  using assms
proof (induction n j u v qhat rhat rule: qhat_loop.induct)
  case (1 n j u v qhat rhat)
  let ?v1 = "v ! (n - 1)" and ?v2 = "v ! (n - 2)" and ?u2 = "u ! (j + n - 2)"
  note n2 = "1.prems"(1) and W = "1.prems"(2) and Wl = "1.prems"(3) and V = "1.prems"(4)
    and Vl = "1.prems"(5) and u1 = "1.prems"(6) and u2 = "1.prems"(7) and v1b = "1.prems"(8)
    and v2b = "1.prems"(9) and v1 = "1.prems"(10) and lt = "1.prems"(11)
    and inv = "1.prems"(12) and ge = "1.prems"(13) and rb = "1.prems"(14) and qb = "1.prems"(15)
  have v2lt: "?v2 < 65536" using v2b by simp
  have u2lt: "?u2 < 65536" using u2 by simp
  have Vpos: "0 < V" unfolding V using Vl v1 by simp
  have qlt: "W div V < 65536" using lt by (simp add: less_mult_imp_div_less)
  have u0v1: "u0 \<le> ?v1" by (rule knuth_u0_le_v1 [OF W V Vl v2lt lt])
  let ?cond = "qhat > 65535 \<or> (qhat * ?v2) mod 2 ^ 32 > ((push_bit 16 rhat mod 2 ^ 32) OR ?u2)"
  show ?case
  proof (cases ?cond)
    case False
    then have q: "qhat \<le> 65535" by simp
    with False have "\<not> qhat * ?v2 > rhat * 65536 + ?u2"
      using cmp32_exact [OF q rb v2b u2] by simp
    then have test: "qhat * ?v2 \<le> rhat * 65536 + ?u2" by simp
    have "qhat \<le> W div V + 1"
      using q by (intro knuth_close [OF W V Vl v1 inv test]) simp
    then show ?thesis
      using False n2 ge q by (subst qhat_loop.simps) simp
  next
    case True
    have big: "W div V < qhat"
    proof (cases "qhat > 65535")
      case True
      then show ?thesis using qlt by simp
    next
      case False
      then have q: "qhat \<le> 65535" by simp
      with True False have "qhat * ?v2 > rhat * 65536 + ?u2"
        using cmp32_exact [OF q rb v2b u2] by simp
      then show ?thesis by (rule knuth_too_large [OF W Wl V v1 inv])
    qed
    then have qpos: "0 < qhat" by simp
    let ?q' = "sub32 qhat 1" and ?r' = "(rhat + ?v1) mod 2 ^ 32"
    have q': "?q' = qhat - 1" using qpos qb by (rule sub32_pred)
    have r': "?r' = rhat + ?v1" using rb v1b by simp
    have inv': "?q' * ?v1 + ?r' = u0 * 65536 + u1"
    proof -
      have "(qhat - 1) * ?v1 + ?v1 = qhat * ?v1" using qpos by (simp add: algebra_simps)
      then show ?thesis using inv q' r' by simp
    qed
    have ge': "W div V \<le> ?q'" using big q' by simp
    have qb': "?q' < 2 ^ 32" using q' qb by simp
    show ?thesis
    proof (cases "?r' \<le> 65535")
      case again: True
      have "\<exists>qhat' rhat'. qhat_loop n j u v ?q' ?r' = Some (qhat', rhat') \<and>
           W div V \<le> qhat' \<and> qhat' \<le> W div V + 1 \<and> qhat' \<le> 65535"
        using n2 True again
        by (intro "1.IH" [OF _ _ refl refl] W Wl V Vl u1 u2 v1b v2b v1 lt inv' ge' qb') simp_all
      then show ?thesis
        using True n2 again by (subst qhat_loop.simps) (simp add: Let_def)
    next
      case stop: False
      then have rbig: "65536 \<le> rhat + ?v1" using r' by simp
      have qsmall: "?q' \<le> 65535"
      proof (rule ccontr)
        assume "\<not> ?q' \<le> 65535"
        then have "65536 \<le> ?q'" by simp
        then have a: "65536 * ?v1 \<le> ?q' * ?v1" by (rule mult_le_mono1)
        have b: "65536 \<le> ?r'" using rbig r' by simp
        have "65536 * ?v1 + 65536 \<le> ?q' * ?v1 + ?r'" using a b by (rule add_mono)
        also have "\<dots> = u0 * 65536 + u1" by (rule inv')
        also have "\<dots> < ?v1 * 65536 + 65536" using u0v1 u1 by (simp add: add_le_less_mono)
        finally show False by simp
      qed
      have "?q' * ?v2 \<le> 65535 * 65535" using qsmall v2b by (rule mult_le_mono)
      also have "\<dots> \<le> 65536 * 65536" by simp
      also have "\<dots> \<le> ?r' * 65536" using rbig r' by simp
      finally have test: "?q' * ?v2 \<le> ?r' * 65536 + ?u2" by simp
      have "?q' \<le> W div V + 1"
        using qsmall by (intro knuth_close [OF W V Vl v1 inv' test]) simp
      then show ?thesis
        using True n2 stop ge' qsmall by (subst qhat_loop.simps) (simp add: Let_def)
    qed
  qed
qed
lemma sub16_eq:
  assumes "a < 65536" "b < 65536"
  shows "sub16 a b = (if b \<le> a then a - b else a + 65536 - b)"
proof (cases "b \<le> a")
  case True
  then have "(int a - int b) mod 65536 = int a - int b" using assms by simp
  then show ?thesis using True by (simp add: sub16_def)
next
  case False
  then have b: "0 \<le> int a - int b + 65536" "int a - int b + 65536 < 65536" using assms by simp_all
  have "(int a - int b) mod 65536 = (int a - int b + 65536) mod 65536"
    by (simp only: mod_add_self2)
  also have "\<dots> = int a - int b + 65536" using b by (rule mod_pos_pos_trivial)
  finally show ?thesis using False by (simp add: sub16_def)
qed

lemma mulsub_step_eq:
  assumes x: "x = u ! (j + i)" "x < 65536" and k: "k < 65536" and q: "qhat \<le> 65535"
    and vi: "vi = (if i = n then 0 else v ! i)" "vi \<le> 65535" and len: "j + i < length u"
  shows "\<exists>d k2. mulsub_step i n j qhat v u k = (u[j + i := d], k2) \<and> d < 65536 \<and> k2 < 65536 \<and>
           x + 65536 * k2 = d + qhat * vi + k"
proof -
  define p where "p = qhat * vi"
  have p_le: "p \<le> 65535 * 65535" unfolding p_def using q vi(2) by (rule mult_le_mono)
  define ph pl where "ph = p div 65536" and "pl = p mod 65536"
  have decomp: "p = 65536 * ph + pl" and pl: "pl < 65536" by (simp_all add: ph_def pl_def)
  have ph: "ph < 65536" using p_le decomp by simp
  have pm: "p mod 2 ^ 32 = p" using p_le by simp
  define d1 where "d1 = sub16 x pl"
  have d1: "d1 = (if pl \<le> x then x - pl else x + 65536 - pl)"
    unfolding d1_def using x(2) pl by (rule sub16_eq)
  have d1lt: "d1 < 65536" using d1 x(2) pl by (simp split: if_splits)
  define d2 where "d2 = sub16 d1 k"
  have d2: "d2 = (if k \<le> d1 then d1 - k else d1 + 65536 - k)"
    unfolding d2_def using d1lt k by (rule sub16_eq)
  have d2lt: "d2 < 65536" using d2 d1lt k by (simp split: if_splits)
  define b1 b2 :: nat where "b1 = (if d1 > x then 1 else 0)" and "b2 = (if d2 > d1 then 1 else 0)"
  have b1: "b1 = (if pl \<le> x then 0 else 1)"
    unfolding b1_def using d1 x(2) pl by (simp split: if_splits)
  have b2: "b2 = (if k \<le> d1 then 0 else 1)"
    unfolding b2_def using d2 d1lt k by (simp split: if_splits)
  have eq: "x + 65536 * (ph + b1 + b2) = d2 + p + k"
    using d1 d2 b1 b2 decomp x(2) pl k d1lt by (simp split: if_splits)
  have "65536 * (ph + b1 + b2) \<le> d2 + p + k" using eq by simp
  also have "\<dots> \<le> 65535 + 65535 * 65535 + 65535" using d2lt p_le k by simp
  finally have k2: "ph + b1 + b2 < 65536" by simp
  have m1: "(ph + b1) mod 65536 = ph + b1" using k2 by simp
  have m2: "(ph + b1 + b2) mod 65536 = ph + b1 + b2" using k2 by simp
  have hi: "drop_bit 16 p mod 65536 = ph" using ph by (simp add: drop_bit_eq_div ph_def)
  have rd: "u[j + i := d2] ! (j + i) = d2" using len by simp
  have "mulsub_step i n j qhat v u k = (u[j + i := d2], ph + b1 + b2)"
    unfolding mulsub_step_def Let_def vi(1) [symmetric] p_def [symmetric] pm hi
      pl_def [symmetric] x(1) [symmetric] d1_def [symmetric] d2_def [symmetric] rd
      b1_def [symmetric] m1 b2_def [symmetric] m2
    by simp
  then show ?thesis using d2lt k2 eq unfolding p_def by blast
qed
section \<open>The signed layer\<close>

text \<open>
  Claim C3 (refuted by the code). For \<open>x = -1\<close> and \<open>y = 2\<close>, both of one limb, \<open>|x| < |y|\<close>
  holds, yet \<open>bigint_div\<close> does not take its early return, which compares only the
  limb counts. It divides, \<open>bigint_create\<close> gives the quotient zero a false sign flag,
  and the assignment \<open>z->negative = x->negative ^ y->negative\<close> then sets the flag.
\<close>

theorem bigint_div_small_dividend_negative_zero:
  "bigint_div \<lparr>length_f = 1, negative = True, data = [1]\<rparr>
              \<lparr>length_f = 1, negative = False, data = [2]\<rparr> =
     Some \<lparr>length_f = 0, negative = True, data = []\<rparr>"
  by (simp add: run_kernel run_bigint cong: run_cong)

text \<open>
  Claim C2 (refuted by the code). For \<open>x = -4\<close> and \<open>y = 2\<close> the remainder is zero, and
  \<open>bigint_rem\<close> returns it with an empty magnitude and the sign flag of \<open>x\<close>, set after
  \<open>bigint_create\<close> has cleared it: a second representation of zero.
\<close>

theorem bigint_rem_negative_zero:
  "bigint_rem \<lparr>length_f = 1, negative = True, data = [4]\<rparr>
              \<lparr>length_f = 1, negative = False, data = [2]\<rparr> =
     Some \<lparr>length_f = 0, negative = True, data = []\<rparr>"
  by (simp add: run_kernel run_bigint cong: run_cong)

end
